theory Spec2Isabelle
  imports Main "HOL-Library.Word" "HOL-Library.Signed_Division"
begin

section \<open>markut: marker parsing, timestamp codec and highlight derivation\<close>

text \<open>
  A shallow embedding of \<^verbatim>\<open>src/markut.go\<close>. Go's \<^verbatim>\<open>int\<close> is modelled as a 64-bit
  machine word (the size of \<^verbatim>\<open>int\<close> on 64-bit targets): \<open>+\<close>, \<open>-\<close> and \<open>*\<close> wrap around,
  comparisons are the signed ones (\<open><s\<close>, \<open>\<le>s\<close>), and \<^verbatim>\<open>/\<close> and \<^verbatim>\<open>%\<close> truncate towards zero.
  Go strings are byte strings, here \<open>string\<close>. Every \<^verbatim>\<open>panic\<close> of the source is a value of
  type \<open>panic\<close>, returned as \<open>Inl\<close>.
\<close>

type_synonym goint = "64 word"

subsection \<open>Panics\<close>

datatype panic =
    NumError string               \<comment> \<open>\<^verbatim>\<open>panic_if_err\<close> on the error of \<^verbatim>\<open>strconv.Atoi\<close> (syntax or range)\<close>
  | Expected3Components           \<comment> \<open>"Expected 3 components in the timestamp"\<close>
  | AssertionFailedIncorrectEnd   \<comment> \<open>"Assertion Failed: Incorrect end"\<close>
  | EmptyRecord                   \<comment> \<open>"CSV record must have at least one field"\<close>
  | OutOfChunkIgnoredMarker goint \<comment> \<open>"Out of Chunk Ignored Marker %d"\<close>
  | UnclosedChunk                 \<comment> \<open>"Unclosed chunk detected! ..."\<close>
  | IndexOutOfRange goint nat     \<comment> \<open>the runtime's bounds check: index, length\<close>
  | ErrFieldCount                 \<comment> \<open>\<^verbatim>\<open>panic_if_err\<close> on the CSV reader's "wrong number of fields"\<close>

subsection \<open>The library functions the program calls\<close>

text \<open>Go's \<^verbatim>\<open>/\<close> and \<^verbatim>\<open>%\<close> on \<^verbatim>\<open>int\<close>: the quotient truncates towards zero, the remainder
  has the sign of the dividend.\<close>

definition godiv :: "goint \<Rightarrow> goint \<Rightarrow> goint" where
  "godiv a b = word_of_int (sint a sdiv sint b)"

definition gomod :: "goint \<Rightarrow> goint \<Rightarrow> goint" where
  "gomod a b = word_of_int (sint a smod sint b)"

definition isDigit :: "char \<Rightarrow> bool" where
  "isDigit c = (48 \<le> (of_char c :: nat) \<and> (of_char c :: nat) \<le> 57)"

definition digitVal :: "char \<Rightarrow> nat" where
  "digitVal c = of_char c - 48"

definition digitChar :: "nat \<Rightarrow> char" where
  "digitChar d = ''0123456789'' ! d"

text \<open>The value of a string of decimal digits, most significant first.\<close>

fun decval :: "nat \<Rightarrow> string \<Rightarrow> nat" where
  "decval n [] = n"
| "decval n (c # cs) = decval (n * 10 + digitVal c) cs"

text \<open>
  \<^verbatim>\<open>strconv.Atoi\<close> for a 64-bit \<^verbatim>\<open>int\<close>: an optional sign, then at least one decimal
  digit and nothing else; the value must lie in \<open>[-2^63, 2^63)\<close>. Both of the library's
  errors (syntax, range) are the one value \<open>NumError s\<close>.
\<close>

definition atoiDigits :: "string \<Rightarrow> bool \<Rightarrow> string \<Rightarrow> panic + goint" where
  "atoiDigits s0 neg ds =
     (if ds = [] \<or> \<not> list_all isDigit ds then Inl (NumError s0)
      else let n = decval 0 ds in
        if neg then (if n \<le> 2 ^ 63 then Inr (- of_nat n) else Inl (NumError s0))
        else (if n < 2 ^ 63 then Inr (of_nat n) else Inl (NumError s0)))"

fun Atoi :: "string \<Rightarrow> panic + goint" where
  "Atoi [] = Inl (NumError [])"
| "Atoi (c # cs) =
     (if c = CHR ''-'' then atoiDigits (c # cs) True cs
      else if c = CHR ''+'' then atoiDigits (c # cs) False cs
      else atoiDigits (c # cs) False (c # cs))"

text \<open>The decimal digits of a natural number, as \<^verbatim>\<open>fmt\<close> writes them.\<close>

fun decimal :: "nat \<Rightarrow> string" where
  "decimal n = (if n < 10 then [digitChar n] else decimal (n div 10) @ [digitChar (n mod 10)])"

declare decimal.simps [simp del]

definition zeroPad :: "nat \<Rightarrow> string \<Rightarrow> string" where
  "zeroPad w s = replicate (w - length s) (CHR ''0'') @ s"

text \<open>
  The verb \<^verbatim>\<open>%0wd\<close> of \<^verbatim>\<open>fmt.Sprintf\<close> on an \<^verbatim>\<open>int\<close>: zero-padded to the width \<open>w\<close>, the
  sign of a negative number taking one column of the width. \<^verbatim>\<open>%d\<close> is the width 0.
\<close>

definition fmtInt :: "nat \<Rightarrow> goint \<Rightarrow> string" where
  "fmtInt w x =
     (if sint x < 0 then CHR ''-'' # zeroPad (w - 1) (decimal (nat (- sint x)))
      else zeroPad w (decimal (nat (sint x))))"

text \<open>\<^verbatim>\<open>strings.Split(s, sep)\<close> for a separator of one byte.\<close>

fun Split :: "string \<Rightarrow> char \<Rightarrow> string list" where
  "Split [] sep = [[]]"
| "Split (c # cs) sep =
     (if c = sep then [] # Split cs sep
      else (case Split cs sep of
              [] \<Rightarrow> [[c]]
            | x # xs \<Rightarrow> (c # x) # xs))"

subsection \<open>Timestamp codec\<close>

definition tsToSecs :: "string \<Rightarrow> panic + goint" where
  "tsToSecs ts =
     (let comps = Split ts (CHR '':'') in
      if length comps \<noteq> 3 then Inl Expected3Components
      else (case Atoi (comps ! 0) of Inl e \<Rightarrow> Inl e | Inr hh \<Rightarrow>
           (case Atoi (comps ! 1) of Inl e \<Rightarrow> Inl e | Inr mm \<Rightarrow>
           (case Atoi (comps ! 2) of Inl e \<Rightarrow> Inl e | Inr ss \<Rightarrow>
              Inr (60 * 60 * hh + 60 * mm + ss)))))"

definition secsToTs :: "goint \<Rightarrow> string" where
  "secsToTs secs =
     (let hh = godiv (godiv secs 60) 60;
          mm = gomod (godiv secs 60) 60;
          ss = gomod secs 60
      in fmtInt 2 hh @ '':'' @ fmtInt 2 mm @ '':'' @ fmtInt 2 ss)"

subsection \<open>Chunks\<close>

record Chunk =
  Start :: goint
  End :: goint
  Ignored :: "goint list"
  Name :: string

definition Duration :: "Chunk \<Rightarrow> goint \<Rightarrow> panic + goint" where
  "Duration chunk end =
     (if end <s Start chunk then Inl AssertionFailedIncorrectEnd
      else Inr (end - Start chunk))"

subsection \<open>The marker parser\<close>

text \<open>
  \<^verbatim>\<open>loadChunksFromFile\<close> reads the records of the CSV file one by one. The model takes
  the rows of the file as the CSV reader splits them into fields, in order (the reader
  skips empty lines, so a row of the file has at least one field); opening the file and
  rows that the reader cannot split (errors of quoting) are outside it.

  \<open>csvRead\<close> is \<^verbatim>\<open>r.Read()\<close> on the next row. The reader comes from \<^verbatim>\<open>csv.NewReader\<close>,
  so its \<^verbatim>\<open>FieldsPerRecord\<close> is 0 at first: the first record sets it to its number of
  fields, and a later record with another number of fields is the reader's error
  \<^verbatim>\<open>ErrFieldCount\<close>, on which the loop panics (\<^verbatim>\<open>panic_if_err\<close>). The result is the
  new \<^verbatim>\<open>FieldsPerRecord\<close> and the record.
\<close>

definition csvRead :: "nat \<Rightarrow> string list \<Rightarrow> panic + nat \<times> string list" where
  "csvRead fieldsPerRecord row =
     (if fieldsPerRecord > 0 then
        (if length row \<noteq> fieldsPerRecord then Inl ErrFieldCount
         else Inr (fieldsPerRecord, row))
      else Inr (length row, row))"

text \<open>
  \<open>readRecord\<close> is what the loop body does with one record before it looks at the open
  chunk: the field count check, \<^verbatim>\<open>strconv.Atoi\<close> on the first field, and the test of the
  second field. The delay is added by the loop.
\<close>

definition readRecord :: "string list \<Rightarrow> panic + goint \<times> bool" where
  "readRecord record =
     (if length record \<le> 0 then Inl EmptyRecord
      else case Atoi (record ! 0) of
             Inl e \<Rightarrow> Inl e
           | Inr timestamp \<Rightarrow> Inr (timestamp, length record > 1 \<and> record ! 1 = ''ignore''))"

text \<open>
  The loop, with the state of the reader (\<open>fieldsPerRecord\<close>) and its two variables:
  \<open>chunks\<close>, the finalized chunks, and \<open>chunkCurrent\<close>, the open chunk (\<open>None\<close> is the nil
  pointer). A chunk is opened with the zero values of Go in its other fields.
\<close>

fun readLoop ::
  "goint \<Rightarrow> nat \<Rightarrow> string list list \<Rightarrow> Chunk list \<Rightarrow> Chunk option \<Rightarrow> panic + Chunk list" where
  "readLoop delay fieldsPerRecord [] chunks chunkCurrent =
     (case chunkCurrent of
        Some c \<Rightarrow> Inl UnclosedChunk
      | None \<Rightarrow> Inr chunks)"
| "readLoop delay fieldsPerRecord (row # rest) chunks chunkCurrent =
     (case csvRead fieldsPerRecord row of
        Inl err \<Rightarrow> Inl err
      | Inr (fieldsPerRecord', record) \<Rightarrow>
     (case readRecord record of
        Inl e \<Rightarrow> Inl e
      | Inr (ts, ignored) \<Rightarrow>
          let timestamp = ts + delay in
          (case chunkCurrent of
             None \<Rightarrow>
               if ignored then Inl (OutOfChunkIgnoredMarker timestamp)
               else readLoop delay fieldsPerRecord' rest chunks
                      (Some \<lparr>Start = timestamp, End = 0, Ignored = [], Name = []\<rparr>)
           | Some c \<Rightarrow>
               if ignored then
                 readLoop delay fieldsPerRecord' rest chunks
                   (Some (c\<lparr>Ignored := Ignored c @ [timestamp]\<rparr>))
               else
                 readLoop delay fieldsPerRecord' rest
                   (chunks @ [c\<lparr>End := timestamp,
                                Name := ''chunk-'' @ fmtInt 2 (of_nat (length chunks)) @ ''.mp4''\<rparr>])
                   None)))"

definition loadChunksFromFile :: "string list list \<Rightarrow> goint \<Rightarrow> panic + Chunk list" where
  "loadChunksFromFile records delay = readLoop delay 0 records [] None"

subsection \<open>Highlights\<close>

record Highlight =
  timestamp :: string
  message :: string

text \<open>The inner loop of \<^verbatim>\<open>highlightChunks\<close>, over the ignored timestamps of one chunk.\<close>

fun ignoredLoop :: "goint \<Rightarrow> Chunk \<Rightarrow> goint list \<Rightarrow> Highlight list \<Rightarrow> panic + Highlight list" where
  "ignoredLoop secs chunk [] highlights = Inr highlights"
| "ignoredLoop secs chunk (ignored # rest) highlights =
     (case Duration chunk ignored of
        Inl e \<Rightarrow> Inl e
      | Inr d \<Rightarrow>
          ignoredLoop secs chunk rest
            (highlights @ [\<lparr>timestamp = secsToTs (secs + d), message = ''ignored''\<rparr>]))"

text \<open>
  The outer loop, with its variables \<open>secs\<close> and \<open>highlights\<close>. The source calls
  \<^verbatim>\<open>chunk.Duration(chunk.End)\<close> twice in one iteration, for the "cut" highlight and to
  advance \<open>secs\<close>; both calls have the same arguments, so the second one returns what
  the first one did.
\<close>

fun chunksLoop :: "goint \<Rightarrow> Chunk list \<Rightarrow> Highlight list \<Rightarrow> panic + Highlight list" where
  "chunksLoop secs [] highlights = Inr highlights"
| "chunksLoop secs (chunk # rest) highlights =
     (case ignoredLoop secs chunk (Ignored chunk) highlights of
        Inl e \<Rightarrow> Inl e
      | Inr highlights1 \<Rightarrow>
          (case Duration chunk (End chunk) of
             Inl e \<Rightarrow> Inl e
           | Inr d \<Rightarrow>
               chunksLoop (secs + d) rest
                 (highlights1 @ [\<lparr>timestamp = secsToTs (secs + d), message = ''cut''\<rparr>])))"

definition highlightChunks :: "Chunk list \<Rightarrow> panic + Highlight list" where
  "highlightChunks chunks = chunksLoop 0 chunks []"

subsection \<open>The single-chunk path\<close>

text \<open>
  \<^verbatim>\<open>chunkSubcommand\<close> after the chunks are loaded: the range check on the flag
  \<^verbatim>\<open>-chunk\<close>, then the indexing \<^verbatim>\<open>chunks[*chunkPtr]\<close>, which the Go runtime checks.
  \<open>Exit n out\<close> is \<^verbatim>\<open>os.Exit(n)\<close> after printing \<open>out\<close>.
\<close>

datatype 'a outcome = Exit nat string | Panicked panic | Proceed 'a

definition selectChunk :: "goint \<Rightarrow> Chunk list \<Rightarrow> Chunk outcome" where
  "selectChunk chunkNo chunks =
     (if int (length chunks) < sint chunkNo then
        Exit 1 (''ERROR: '' @ fmtInt 0 chunkNo @ '' is incorrect chunk number. There is only ''
                @ fmtInt 0 (of_nat (length chunks)) @ '' of them.'' @ [CHR 0x0A])
      else if sint chunkNo < 0 \<or> int (length chunks) \<le> sint chunkNo then
        Panicked (IndexOutOfRange chunkNo (length chunks))
      else Proceed (chunks ! nat (sint chunkNo)))"

subsection \<open>Notions used to state the properties\<close>

text \<open>
  A marker is a record as the loop sees it: the timestamp of the first field (before the
  delay is added) and whether the record is an ignore-marker. \<open>reads records markers\<close>
  says that every record is read without a panic, as the marker at the same position.
\<close>

type_synonym marker = "goint \<times> bool"

definition reads :: "string list list \<Rightarrow> marker list \<Rightarrow> bool" where
  "reads records markers = list_all2 (\<lambda>r m. readRecord r = Inr m) records markers"

definition nonIgnoreCount :: "marker list \<Rightarrow> nat" where
  "nonIgnoreCount ms = length (filter (\<lambda>m. \<not> snd m) ms)"

text \<open>Every ignore-marker has an odd number of non-ignore markers before it: it falls
  between a marker that opens a chunk and the marker that closes it.\<close>

definition ignoresInsideChunks :: "marker list \<Rightarrow> bool" where
  "ignoresInsideChunks ms =
     list_all (\<lambda>i. snd (ms ! i) \<longrightarrow> odd (nonIgnoreCount (take i ms))) [0..<length ms]"

text \<open>
  Marker \<open>i\<close> is an ignore-marker met while no chunk is open, when the stream is entered
  with a chunk open (\<open>opn\<close>) or not: the parity of the non-ignore markers before it
  tells whether a chunk is open there.
\<close>

definition idleIgnoreAt :: "bool \<Rightarrow> marker list \<Rightarrow> nat \<Rightarrow> bool" where
  "idleIgnoreAt opn ms i = (snd (ms ! i) \<and> (odd (nonIgnoreCount (take i ms)) = opn))"

definition delayChunk :: "goint \<Rightarrow> Chunk \<Rightarrow> Chunk" where
  "delayChunk d c =
     c\<lparr>Start := Start c + d, End := End c + d, Ignored := map (\<lambda>t. t + d) (Ignored c)\<rparr>"

definition delayPanic :: "goint \<Rightarrow> panic \<Rightarrow> panic" where
  "delayPanic d e =
     (case e of OutOfChunkIgnoredMarker t \<Rightarrow> OutOfChunkIgnoredMarker (t + d) | _ \<Rightarrow> e)"

definition wellTimed :: "Chunk \<Rightarrow> bool" where
  "wellTimed c =
     (Start c \<le>s End c \<and> list_all (\<lambda>t. Start c \<le>s t \<and> t \<le>s End c) (Ignored c))"

definition startsFirst :: "Chunk \<Rightarrow> bool" where
  "startsFirst c = (Start c \<le>s End c \<and> list_all (\<lambda>t. Start c \<le>s t) (Ignored c))"

definition cuts :: "Highlight list \<Rightarrow> Highlight list" where
  "cuts hs = filter (\<lambda>h. message h = ''cut'') hs"

text \<open>All rows have the number of fields of the first row: the reader accepts them.\<close>

definition equalFieldCounts :: "string list list \<Rightarrow> bool" where
  "equalFieldCounts rows = list_all (\<lambda>r. length r = length (hd rows)) rows"

text \<open>
  Adding the delay \<open>d\<close> to the timestamp \<open>t\<close> stays in the range of \<^verbatim>\<open>int\<close>; and \<open>t'\<close> is
  \<open>t\<close> with the delay added by Go's \<open>+\<close>, which is exactly \<open>d\<close> greater when the sum stays
  in range.
\<close>

definition addInRange :: "goint \<Rightarrow> goint \<Rightarrow> bool" where
  "addInRange t d = (- (2 ^ 63) \<le> sint t + sint d \<and> sint t + sint d < 2 ^ 63)"

definition delayedBy :: "goint \<Rightarrow> goint \<Rightarrow> goint \<Rightarrow> bool" where
  "delayedBy d t t' = (t' = t + d \<and> (addInRange t d \<longrightarrow> sint t' = sint t + sint d))"

text \<open>The sum of \<open>end - start\<close> over the chunks, as an integer.\<close>

definition totalDuration :: "Chunk list \<Rightarrow> int" where
  "totalDuration cs = sum_list (map (\<lambda>c. sint (End c) - sint (Start c)) cs)"

text \<open>The timestamps held by the open chunk, in the order they were read.\<close>

fun openTimes :: "Chunk option \<Rightarrow> goint list" where
  "openTimes None = []"
| "openTimes (Some c) = Start c # Ignored c"

section \<open>Facts about the library functions\<close>

lemmas evaluation_rules =
  loadChunksFromFile_def readRecord_def atoiDigits_def isDigit_def digitVal_def
  tsToSecs_def secsToTs_def godiv_def gomod_def fmtInt_def zeroPad_def decimal.simps
  digitChar_def signed_divide_int_def signed_modulo_int_def highlightChunks_def
  Duration_def selectChunk_def reads_def nonIgnoreCount_def ignoresInsideChunks_def
  startsFirst_def wellTimed_def cuts_def csvRead_def equalFieldCounts_def

lemma digitVal_digitChar: "d < 10 \<Longrightarrow> digitVal (digitChar d) = d"
  by (auto simp: digitChar_def digitVal_def numeral_eq_Suc less_Suc_eq)

lemma isDigit_digitChar: "d < 10 \<Longrightarrow> isDigit (digitChar d)"
  by (auto simp: digitChar_def isDigit_def numeral_eq_Suc less_Suc_eq)

lemma decval_append: "decval n (xs @ ys) = decval (decval n xs) ys"
  by (induction xs arbitrary: n) simp_all

lemma decval_decimal: "decval 0 (decimal n) = n"
proof (induction n rule: decimal.induct)
  case (1 n)
  show ?case
  proof (cases "n < 10")
    case True
    then show ?thesis by (simp add: decimal.simps [of n] digitVal_digitChar)
  next
    case False
    then have "decval 0 (decimal (n div 10)) = n div 10" using 1 by simp
    with False show ?thesis
      by (simp add: decimal.simps [of n] decval_append digitVal_digitChar)
  qed
qed

lemma decimal_digits: "list_all isDigit (decimal n)"
proof (induction n rule: decimal.induct)
  case (1 n)
  show ?case
  proof (cases "n < 10")
    case True
    then show ?thesis by (simp add: decimal.simps [of n] isDigit_digitChar)
  next
    case False
    with 1 show ?thesis by (simp add: decimal.simps [of n] isDigit_digitChar)
  qed
qed

lemma decimal_nonempty: "decimal n \<noteq> []"
  by (subst decimal.simps) simp

lemma decval_zeros: "decval 0 (replicate k (CHR ''0'')) = 0"
  by (induction k) (simp_all add: digitVal_def)

lemma decval_zeroPad: "decval 0 (zeroPad w s) = decval 0 s"
  by (simp add: zeroPad_def decval_append decval_zeros)

lemma zeroPad_digits: "list_all isDigit s \<Longrightarrow> list_all isDigit (zeroPad w s)"
  by (auto simp: zeroPad_def isDigit_def list_all_iff)

lemma zeroPad_nonempty: "s \<noteq> [] \<Longrightarrow> zeroPad w s \<noteq> []"
  by (simp add: zeroPad_def)

lemma Atoi_digits: "s \<noteq> [] \<Longrightarrow> list_all isDigit s \<Longrightarrow> Atoi s = atoiDigits s False s"
  by (cases s) (auto simp: isDigit_def)

lemma Atoi_fmtInt: "Atoi (fmtInt w x) = Inr x"
proof (cases "sint x < 0")
  case True
  let ?n = "nat (- sint x)"
  have le: "?n \<le> 2 ^ 63"
    using sint_ge [of x] by simp
  have "- (of_nat ?n :: goint) = x"
    using True by simp
  with True le show ?thesis
    by (simp add: fmtInt_def atoiDigits_def decval_zeroPad decval_decimal
        zeroPad_digits decimal_digits zeroPad_nonempty decimal_nonempty)
next
  case False
  let ?n = "nat (sint x)"
  have lt: "?n < 2 ^ 63"
    using sint_lt [of x] False by simp
  have "(of_nat ?n :: goint) = x"
    using False by simp
  with False lt show ?thesis
    by (simp add: fmtInt_def Atoi_digits atoiDigits_def decval_zeroPad decval_decimal
        zeroPad_digits decimal_digits zeroPad_nonempty decimal_nonempty)
qed

lemma Split_no_sep: "sep \<notin> set a \<Longrightarrow> Split a sep = [a]"
  by (induction a) auto

lemma Split_append: "sep \<notin> set a \<Longrightarrow> Split (a @ sep # rest) sep = a # Split rest sep"
proof (induction a)
  case Nil
  then show ?case by simp
next
  case (Cons c a)
  then show ?case by (auto split: list.splits)
qed

lemma colon_not_digit: "isDigit c \<Longrightarrow> c \<noteq> CHR '':''"
  by (auto simp: isDigit_def)

lemma fmtInt_no_colon: "CHR '':'' \<notin> set (fmtInt w x)"
proof -
  have "CHR '':'' \<notin> set (zeroPad k (decimal n))" for k n
    using zeroPad_digits [OF decimal_digits, of k n] colon_not_digit
    by (auto simp: list_all_iff)
  then show ?thesis by (simp add: fmtInt_def)
qed

lemma sint_sdiv60: "sint (word_of_int (sint (x :: goint) sdiv 60) :: goint) = sint x sdiv 60"
proof -
  have "- (2 ^ 63) \<le> sint x" "sint x < 2 ^ 63"
    using sint_ge [of x] sint_lt [of x] by simp_all
  then have "- (2 ^ 63) \<le> sint x sdiv 60 \<and> sint x sdiv 60 < 2 ^ 63"
    by (auto simp: signed_divide_int_def sgn_if)
  then show ?thesis
    by (simp add: sint_sbintrunc' signed_take_bit_int_eq_self)
qed

lemma codec_arith:
  "60 * 60 * godiv (godiv x 60) 60 + 60 * gomod (godiv x 60) 60 + gomod x 60 = x"
proof -
  let ?n = "sint x"
  let ?q = "?n sdiv 60"
  have q: "sint (godiv x 60) = ?q"
    by (simp add: godiv_def sint_sdiv60)
  have "60 * 60 * (?q sdiv 60) + 60 * (?q smod 60) + ?n smod 60 = ?n"
    using sdiv_mult_smod_eq [of ?q 60] sdiv_mult_smod_eq [of ?n 60] by simp
  then have "word_of_int (60 * 60 * (?q sdiv 60) + 60 * (?q smod 60) + ?n smod 60) = (word_of_int ?n :: goint)"
    by simp
  then show ?thesis
    by (simp add: godiv_def gomod_def sint_sdiv60)
qed

lemma tsToSecs_secsToTs: "tsToSecs (secsToTs x) = Inr x"
proof -
  define a b c where "a = fmtInt 2 (godiv (godiv x 60) 60)"
    and "b = fmtInt 2 (gomod (godiv x 60) 60)" and "c = fmtInt 2 (gomod x 60)"
  have ts: "secsToTs x = a @ CHR '':'' # b @ CHR '':'' # c"
    by (simp add: secsToTs_def a_def b_def c_def)
  have "Split (secsToTs x) (CHR '':'') = [a, b, c]"
    unfolding ts
    by (simp add: Split_append Split_no_sep fmtInt_no_colon a_def b_def c_def)
  then show ?thesis
    using codec_arith [of x]
    by (simp add: tsToSecs_def a_def b_def c_def Atoi_fmtInt)
qed

section \<open>Facts about the marker parser\<close>

lemma nonIgnoreCount_Cons:
  "nonIgnoreCount (m # ms) = (if snd m then 0 else 1) + nonIgnoreCount ms"
  by (simp add: nonIgnoreCount_def)

lemma idleIgnoreAt_0: "idleIgnoreAt opn (m # ms) 0 = (snd m \<and> \<not> opn)"
  by (auto simp: idleIgnoreAt_def nonIgnoreCount_def)

lemma idleIgnoreAt_Suc:
  "idleIgnoreAt opn (m # ms) (Suc i) = idleIgnoreAt (if snd m then opn else \<not> opn) ms i"
  by (auto simp: idleIgnoreAt_def nonIgnoreCount_Cons)

lemma all_less_Cons:
  "(\<forall>i<Suc n. P i) = (P 0 \<and> (\<forall>i<n. P (Suc i)))"
  by (auto simp: less_Suc_eq_0_disj)

lemma ignoresInsideChunks_iff:
  "ignoresInsideChunks ms = (\<forall>i<length ms. \<not> idleIgnoreAt False ms i)"
  by (auto simp: ignoresInsideChunks_def idleIgnoreAt_def list_all_iff)

lemma reads_Cons:
  "reads (r # rs) mms = (\<exists>m ms. mms = m # ms \<and> readRecord r = Inr m \<and> reads rs ms)"
  by (auto simp: reads_def list_all2_Cons1)

lemma reads_Nil: "reads [] ms = (ms = [])"
  by (simp add: reads_def)

lemma reads_Cons_uniform:
  assumes "reads (r # rs) mms" and "\<forall>r'\<in>set (r # rs). length r' = n" and "fpr = 0 \<or> fpr = n"
  obtains t ig ms where "mms = (t, ig) # ms" and "readRecord r = Inr (t, ig)" and "reads rs ms"
    and "csvRead fpr r = Inr (n, r)" and "\<forall>r'\<in>set rs. length r' = n" and "n = 0 \<or> n = n"
proof -
  from assms(1) obtain t ig ms where a: "mms = (t, ig) # ms" "readRecord r = Inr (t, ig)"
    "reads rs ms"
    by (auto simp: reads_Cons)
  from a(2) assms(2) have "0 < n"
    by (auto simp: readRecord_def split: if_splits)
  with assms(2,3) have "csvRead fpr r = Inr (n, r)"
    by (auto simp: csvRead_def)
  with a assms(2) show thesis
    by (intro that [of t ig ms]) simp_all
qed

lemma readLoop_field_count_example:
  "loadChunksFromFile [[''10''], [''15'', ''ignore''], [''20'']] 0 = Inl ErrFieldCount"
  by (simp add: evaluation_rules)

lemma equalFieldCounts_iff: "equalFieldCounts rs = (\<forall>r\<in>set rs. length r = length (hd rs))"
  by (simp add: equalFieldCounts_def list_all_iff)

lemma readLoop_success:
  "reads rs ms \<Longrightarrow> \<forall>r\<in>set rs. length r = n \<Longrightarrow> fpr = 0 \<or> fpr = n \<Longrightarrow>
   \<forall>i<length ms. \<not> idleIgnoreAt opn ms i \<Longrightarrow> opn = (cur \<noteq> None) \<Longrightarrow>
   even (nonIgnoreCount ms) = (\<not> opn) \<Longrightarrow>
   \<exists>cs. readLoop d fpr rs chunks cur = Inr cs \<and>
        length cs = length chunks + (nonIgnoreCount ms + (if opn then 1 else 0)) div 2"
proof (induction rs arbitrary: ms opn cur chunks fpr)
  case Nil
  then show ?case by (simp add: reads_Nil nonIgnoreCount_def)
next
  case (Cons r rs)
  from Cons.prems(1,2,3) obtain t ig ms' where ms: "ms = (t, ig) # ms'"
    and r: "readRecord r = Inr (t, ig)" and rest: "reads rs ms'"
    and cr: "csvRead fpr r = Inr (n, r)" and unif: "\<forall>r'\<in>set rs. length r' = n"
    and fn: "n = 0 \<or> n = n"
    by (rule reads_Cons_uniform)
  from Cons.prems(4) have h0: "ig \<longrightarrow> opn"
    and hS: "\<forall>i<length ms'. \<not> idleIgnoreAt (if ig then opn else \<not> opn) ms' i"
    by (simp_all add: ms all_less_Cons idleIgnoreAt_0 idleIgnoreAt_Suc)
  show ?case
  proof (cases ig)
    case True
    with h0 Cons.prems(5) obtain c where cur: "cur = Some c" by auto
    have "\<exists>cs. readLoop d n rs chunks (Some (c\<lparr>Ignored := Ignored c @ [t + d]\<rparr>)) = Inr cs \<and>
        length cs = length chunks + (nonIgnoreCount ms' + (if opn then 1 else 0)) div 2"
      using Cons.IH [OF rest unif fn, of opn "Some (c\<lparr>Ignored := Ignored c @ [t + d]\<rparr>)" chunks]
        hS True Cons.prems(5,6) by (simp add: ms nonIgnoreCount_Cons cur)
    then show ?thesis
      using True r cr by (simp add: cur ms nonIgnoreCount_Cons)
  next
    case False
    show ?thesis
    proof (cases cur)
      case None
      then have opn: "\<not> opn" using Cons.prems(5) by simp
      let ?c = "\<lparr>Start = t + d, End = 0, Ignored = [], Name = []\<rparr>"
      have "\<exists>cs. readLoop d n rs chunks (Some ?c) = Inr cs \<and>
          length cs = length chunks + (nonIgnoreCount ms' + (if True then 1 else 0)) div 2"
        using Cons.IH [OF rest unif fn, of True "Some ?c" chunks] hS False opn Cons.prems(6)
        by (simp add: ms nonIgnoreCount_Cons)
      then show ?thesis
        using False r cr None opn by (simp add: ms nonIgnoreCount_Cons)
    next
      case (Some c)
      then have opn: opn using Cons.prems(5) by simp
      let ?chunks = "chunks @ [c\<lparr>End := t + d,
           Name := ''chunk-'' @ fmtInt 2 (of_nat (length chunks)) @ ''.mp4''\<rparr>]"
      have "\<exists>cs. readLoop d n rs ?chunks None = Inr cs \<and>
          length cs = length ?chunks + (nonIgnoreCount ms' + (if False then 1 else 0)) div 2"
        using Cons.IH [OF rest unif fn, of False None ?chunks] hS False opn Cons.prems(6)
        by (simp add: ms nonIgnoreCount_Cons)
      then show ?thesis
        using False r cr Some opn by (simp add: ms nonIgnoreCount_Cons)
    qed
  qed
qed

lemma readLoop_unclosed:
  "reads rs ms \<Longrightarrow> \<forall>r\<in>set rs. length r = n \<Longrightarrow> fpr = 0 \<or> fpr = n \<Longrightarrow>
   \<forall>i<length ms. \<not> idleIgnoreAt opn ms i \<Longrightarrow> opn = (cur \<noteq> None) \<Longrightarrow>
   even (nonIgnoreCount ms) = opn \<Longrightarrow>
   readLoop d fpr rs chunks cur = Inl UnclosedChunk"
proof (induction rs arbitrary: ms opn cur chunks fpr)
  case Nil
  then show ?case by (auto simp: reads_Nil nonIgnoreCount_def)
next
  case (Cons r rs)
  from Cons.prems(1,2,3) obtain t ig ms' where ms: "ms = (t, ig) # ms'"
    and r: "readRecord r = Inr (t, ig)" and rest: "reads rs ms'"
    and cr: "csvRead fpr r = Inr (n, r)" and unif: "\<forall>r'\<in>set rs. length r' = n"
    and fn: "n = 0 \<or> n = n"
    by (rule reads_Cons_uniform)
  from Cons.prems(4) have h0: "ig \<longrightarrow> opn"
    and hS: "\<forall>i<length ms'. \<not> idleIgnoreAt (if ig then opn else \<not> opn) ms' i"
    by (simp_all add: ms all_less_Cons idleIgnoreAt_0 idleIgnoreAt_Suc)
  show ?case
  proof (cases ig)
    case True
    with h0 Cons.prems(5) obtain c where cur: "cur = Some c" by auto
    have "readLoop d n rs chunks (Some (c\<lparr>Ignored := Ignored c @ [t + d]\<rparr>)) = Inl UnclosedChunk"
      using Cons.IH [OF rest unif fn, of opn "Some (c\<lparr>Ignored := Ignored c @ [t + d]\<rparr>)" chunks]
        hS True Cons.prems(5,6) by (simp add: ms nonIgnoreCount_Cons cur)
    then show ?thesis
      using True r cr by (simp add: cur)
  next
    case False
    show ?thesis
    proof (cases cur)
      case None
      then have opn: "\<not> opn" using Cons.prems(5) by simp
      let ?c = "\<lparr>Start = t + d, End = 0, Ignored = [], Name = []\<rparr>"
      have "readLoop d n rs chunks (Some ?c) = Inl UnclosedChunk"
        using Cons.IH [OF rest unif fn, of True "Some ?c" chunks] hS False opn Cons.prems(6)
        by (simp add: ms nonIgnoreCount_Cons)
      then show ?thesis
        using False r cr None by simp
    next
      case (Some c)
      then have opn: opn using Cons.prems(5) by simp
      let ?chunks = "chunks @ [c\<lparr>End := t + d,
           Name := ''chunk-'' @ fmtInt 2 (of_nat (length chunks)) @ ''.mp4''\<rparr>]"
      have "readLoop d n rs ?chunks None = Inl UnclosedChunk"
        using Cons.IH [OF rest unif fn, of False None ?chunks] hS False opn Cons.prems(6)
        by (simp add: ms nonIgnoreCount_Cons)
      then show ?thesis
        using False r cr Some by simp
    qed
  qed
qed

lemma readLoop_out_of_chunk:
  "reads rs ms \<Longrightarrow> \<forall>r\<in>set rs. length r = n \<Longrightarrow> fpr = 0 \<or> fpr = n \<Longrightarrow>
   \<exists>i<length ms. idleIgnoreAt opn ms i \<Longrightarrow> opn = (cur \<noteq> None) \<Longrightarrow>
   \<exists>i<length ms. idleIgnoreAt opn ms i \<and> (\<forall>j<i. \<not> idleIgnoreAt opn ms j) \<and>
      readLoop d fpr rs chunks cur = Inl (OutOfChunkIgnoredMarker (fst (ms ! i) + d))"
proof (induction rs arbitrary: ms opn cur chunks fpr)
  case Nil
  then show ?case by (simp add: reads_Nil)
next
  case (Cons r rs)
  from Cons.prems(1,2,3) obtain t ig ms' where ms: "ms = (t, ig) # ms'"
    and r: "readRecord r = Inr (t, ig)" and rest: "reads rs ms'"
    and cr: "csvRead fpr r = Inr (n, r)" and unif: "\<forall>r'\<in>set rs. length r' = n"
    and fn: "n = 0 \<or> n = n"
    by (rule reads_Cons_uniform)
  show ?case
  proof (cases "ig \<and> \<not> opn")
    case True
    then have "cur = None" using Cons.prems(5) by simp
    with True r cr have "readLoop d fpr (r # rs) chunks cur = Inl (OutOfChunkIgnoredMarker (t + d))"
      by simp
    moreover have "idleIgnoreAt opn ms 0"
      using True by (simp add: ms idleIgnoreAt_0)
    ultimately show ?thesis
      by (intro exI [of _ 0]) (simp add: ms)
  next
    case False
    define opn' where "opn' = (if ig then opn else \<not> opn)"
    define cur' where "cur' = (case cur of
        None \<Rightarrow> Some \<lparr>Start = t + d, End = 0, Ignored = [], Name = []\<rparr>
      | Some c \<Rightarrow> if ig then Some (c\<lparr>Ignored := Ignored c @ [t + d]\<rparr>) else None)"
    define chunks' where "chunks' = (case cur of
        None \<Rightarrow> chunks
      | Some c \<Rightarrow> if ig then chunks else chunks @ [c\<lparr>End := t + d,
           Name := ''chunk-'' @ fmtInt 2 (of_nat (length chunks)) @ ''.mp4''\<rparr>])"
    have step: "readLoop d fpr (r # rs) chunks cur = readLoop d n rs chunks' cur'"
      using False r cr Cons.prems(5)
      by (auto simp: cur'_def chunks'_def split: option.splits)
    have opn': "opn' = (cur' \<noteq> None)"
      using False Cons.prems(5) by (auto simp: opn'_def cur'_def split: option.splits)
    from Cons.prems(4) False have "\<exists>i<length ms'. idleIgnoreAt opn' ms' i"
      unfolding opn'_def ms
      by (metis idleIgnoreAt_0 idleIgnoreAt_Suc length_Cons less_Suc_eq_0_disj snd_conv)
    from Cons.IH [OF rest unif fn this opn', of chunks']
    obtain i where i: "i < length ms'" "idleIgnoreAt opn' ms' i"
      "\<forall>j<i. \<not> idleIgnoreAt opn' ms' j"
      "readLoop d n rs chunks' cur' = Inl (OutOfChunkIgnoredMarker (fst (ms' ! i) + d))"
      by blast
    have "\<forall>j<Suc i. \<not> idleIgnoreAt opn ms j"
      using i(3) False by (simp add: all_less_Cons ms idleIgnoreAt_0 idleIgnoreAt_Suc opn'_def)
    with i step show ?thesis
      by (intro exI [of _ "Suc i"]) (simp add: ms idleIgnoreAt_Suc opn'_def)
  qed
qed

lemma readLoop_names:
  "readLoop d fpr rs chunks cur = Inr cs \<Longrightarrow>
   \<forall>i<length chunks. Name (chunks ! i) = ''chunk-'' @ fmtInt 2 (of_nat i) @ ''.mp4'' \<Longrightarrow>
   \<forall>i<length cs. Name (cs ! i) = ''chunk-'' @ fmtInt 2 (of_nat i) @ ''.mp4''"
proof (induction rs arbitrary: fpr chunks cur)
  case Nil
  then show ?case by (auto split: option.splits)
next
  case (Cons r rs)
  from Cons.prems(1) obtain n where cr: "csvRead fpr r = Inr (n, r)"
    by (auto simp: csvRead_def split: if_splits)
  with Cons.prems(1) obtain ts ignored where rr: "readRecord r = Inr (ts, ignored)"
    by (auto split: sum.splits)
  show ?case
  proof (cases cur)
    case None
    with Cons.prems(1) cr rr have ni: "\<not> ignored" by (auto split: if_splits)
    have "readLoop d n rs chunks (Some \<lparr>Start = ts + d, End = 0, Ignored = [], Name = []\<rparr>) = Inr cs"
      using Cons.prems(1) cr rr None ni by simp
    from Cons.IH [OF this Cons.prems(2)] show ?thesis .
  next
    case (Some c)
    show ?thesis
    proof (cases ignored)
      case True
      have "readLoop d n rs chunks (Some (c\<lparr>Ignored := Ignored c @ [ts + d]\<rparr>)) = Inr cs"
        using Cons.prems(1) cr rr Some True by simp
      from Cons.IH [OF this Cons.prems(2)] show ?thesis .
    next
      case False
      let ?chunks = "chunks @ [c\<lparr>End := ts + d,
           Name := ''chunk-'' @ fmtInt 2 (of_nat (length chunks)) @ ''.mp4''\<rparr>]"
      have nm: "\<forall>i<length ?chunks. Name (?chunks ! i) = ''chunk-'' @ fmtInt 2 (of_nat i) @ ''.mp4''"
        using Cons.prems(2) by (auto simp: nth_append less_Suc_eq)
      have "readLoop d n rs ?chunks None = Inr cs"
        using Cons.prems(1) cr rr Some False by simp
      from Cons.IH [OF this nm] show ?thesis .
    qed
  qed
qed

lemma delayChunk_close:
  "delayChunk d (c\<lparr>End := t, Name := n\<rparr>) =
   (c\<lparr>Start := Start c + d, Ignored := map (\<lambda>t. t + d) (Ignored c)\<rparr>)\<lparr>End := t + d, Name := n\<rparr>"
  by (simp add: delayChunk_def)

lemma readLoop_delay:
  "readLoop d fpr rs (map (delayChunk d) chunks)
       (map_option (\<lambda>c. c\<lparr>Start := Start c + d, Ignored := map (\<lambda>t. t + d) (Ignored c)\<rparr>) cur) =
   (case readLoop 0 fpr rs chunks cur of
      Inl e \<Rightarrow> Inl (delayPanic d e)
    | Inr cs \<Rightarrow> Inr (map (delayChunk d) cs))"
proof (induction rs arbitrary: fpr chunks cur)
  case Nil
  then show ?case by (simp add: delayPanic_def split: option.splits)
next
  case (Cons r rs)
  show ?case
  proof (cases "csvRead fpr r")
    case (Inl e)
    then have "e = ErrFieldCount"
      by (auto simp: csvRead_def split: if_splits)
    with Inl show ?thesis by (simp add: delayPanic_def)
  next
    case cr: (Inr p)
    then obtain n where cr: "csvRead fpr r = Inr (n, r)"
      by (auto simp: csvRead_def split: if_splits)
    show ?thesis
    proof (cases "readRecord r")
      case (Inl e)
      then have "e = EmptyRecord \<or> (\<exists>s. e = NumError s)"
        by (auto simp: readRecord_def atoiDigits_def Let_def split: if_splits sum.splits elim!: Atoi.elims)
      with Inl cr show ?thesis by (auto simp: delayPanic_def)
    next
      case (Inr m)
      obtain t ig where m: "m = (t, ig)" by (cases m)
      show ?thesis
      proof (cases cur)
        case None
        show ?thesis
        proof (cases ig)
          case True
          with Inr m None cr show ?thesis by (simp add: delayPanic_def)
        next
          case False
          show ?thesis
            using Cons.IH [of n chunks "Some \<lparr>Start = t, End = 0, Ignored = [], Name = []\<rparr>"]
              Inr m None False cr by simp
        qed
      next
        case (Some c)
        show ?thesis
        proof (cases ig)
          case True
          show ?thesis
            using Cons.IH [of n chunks "Some (c\<lparr>Ignored := Ignored c @ [t]\<rparr>)"]
              Inr m Some True cr by simp
        next
          case False
          show ?thesis
            using Cons.IH [of n "chunks @ [c\<lparr>End := t,
               Name := ''chunk-'' @ fmtInt 2 (of_nat (length chunks)) @ ''.mp4''\<rparr>]" None]
              Inr m Some False cr by (simp add: delayChunk_close)
        qed
      qed
    qed
  qed
qed

lemma readLoop_wellTimed:
  "reads rs ms \<Longrightarrow> sorted_wrt (\<le>s) (openTimes cur @ map (\<lambda>m. fst m + d) ms) \<Longrightarrow>
   list_all wellTimed chunks \<Longrightarrow> readLoop d fpr rs chunks cur = Inr cs \<Longrightarrow>
   list_all wellTimed cs"
proof (induction rs arbitrary: ms chunks cur fpr)
  case Nil
  then show ?case by (auto split: option.splits)
next
  case (Cons r rs)
  from Cons.prems(1) obtain t ig ms' where ms: "ms = (t, ig) # ms'"
    and r: "readRecord r = Inr (t, ig)" and rest: "reads rs ms'"
    by (auto simp: reads_Cons)
  from Cons.prems(4) obtain n where cr: "csvRead fpr r = Inr (n, r)"
    by (auto simp: csvRead_def split: if_splits)
  show ?case
  proof (cases cur)
    case None
    with Cons.prems(4) r cr have ni: "\<not> ig" by (auto split: if_splits)
    let ?c = "\<lparr>Start = t + d, End = 0, Ignored = [], Name = []\<rparr>"
    have "sorted_wrt (\<le>s) (openTimes (Some ?c) @ map (\<lambda>m. fst m + d) ms')"
      using Cons.prems(2) None by (simp add: ms)
    from Cons.IH [OF rest this Cons.prems(3), of n] Cons.prems(4) r cr None ni
    show ?thesis by simp
  next
    case (Some c)
    show ?thesis
    proof (cases ig)
      case True
      let ?c = "c\<lparr>Ignored := Ignored c @ [t + d]\<rparr>"
      have "sorted_wrt (\<le>s) (openTimes (Some ?c) @ map (\<lambda>m. fst m + d) ms')"
        using Cons.prems(2) Some by (simp add: ms)
      from Cons.IH [OF rest this Cons.prems(3), of n] Cons.prems(4) r cr Some True
      show ?thesis by simp
    next
      case False
      let ?c = "c\<lparr>End := t + d,
             Name := ''chunk-'' @ fmtInt 2 (of_nat (length chunks)) @ ''.mp4''\<rparr>"
      have s: "sorted_wrt (\<le>s) ((Start c # Ignored c) @ (t + d) # map (\<lambda>m. fst m + d) ms')"
        using Cons.prems(2) Some by (simp add: ms)
      then have "wellTimed ?c"
        by (auto simp: wellTimed_def sorted_wrt_append list_all_iff)
      then have wt: "list_all wellTimed (chunks @ [?c])"
        using Cons.prems(3) by simp
      have "sorted_wrt (\<le>s) (openTimes None @ map (\<lambda>m. fst m + d) ms')"
        using s by (simp add: sorted_wrt_append)
      from Cons.IH [OF rest this wt, of n] Cons.prems(4) r cr Some False
      show ?thesis by simp
    qed
  qed
qed

section \<open>Facts about the highlight deriver\<close>

lemma Duration_ok: "Start c \<le>s e \<Longrightarrow> Duration c e = Inr (e - Start c)"
  by (auto simp: Duration_def word_sless_alt word_sle_eq)

lemma ignoredLoop_ok:
  "list_all (\<lambda>t. Start c \<le>s t) igs \<Longrightarrow>
   ignoredLoop secs c igs hs =
     Inr (hs @ map (\<lambda>t. \<lparr>timestamp = secsToTs (secs + (t - Start c)), message = ''ignored''\<rparr>) igs)"
  by (induction igs arbitrary: hs) (simp_all add: Duration_ok)

lemma chunksLoop_ok:
  "list_all startsFirst cs \<Longrightarrow>
   \<exists>hs'. chunksLoop secs cs hs = Inr hs' \<and>
     (cs \<noteq> [] \<longrightarrow> last hs' =
        \<lparr>timestamp = secsToTs (secs + sum_list (map (\<lambda>c. End c - Start c) cs)), message = ''cut''\<rparr>)"
proof (induction cs arbitrary: secs hs)
  case Nil
  then show ?case by simp
next
  case (Cons c cs)
  from Cons.prems have rest: "list_all startsFirst cs" and "startsFirst c"
    by simp_all
  then have c: "Start c \<le>s End c" "list_all (\<lambda>t. Start c \<le>s t) (Ignored c)"
    by (simp_all add: startsFirst_def)
  define hs1 where "hs1 = hs @ map (\<lambda>t. \<lparr>timestamp = secsToTs (secs + (t - Start c)), message = ''ignored''\<rparr>) (Ignored c)
     @ [\<lparr>timestamp = secsToTs (secs + (End c - Start c)), message = ''cut''\<rparr>]"
  have step: "chunksLoop secs (c # cs) hs = chunksLoop (secs + (End c - Start c)) cs hs1"
    using c by (simp add: ignoredLoop_ok Duration_ok hs1_def)
  from Cons.IH [OF rest, of "secs + (End c - Start c)" hs1]
  obtain hs' where hs': "chunksLoop (secs + (End c - Start c)) cs hs1 = Inr hs'"
    "cs \<noteq> [] \<longrightarrow> last hs' =
        \<lparr>timestamp = secsToTs (secs + (End c - Start c) + sum_list (map (\<lambda>c. End c - Start c) cs)), message = ''cut''\<rparr>"
    by blast
  show ?case
  proof (cases "cs = []")
    case True
    with step show ?thesis by (simp add: hs1_def)
  next
    case False
    with hs' step show ?thesis by (simp add: add.assoc)
  qed
qed

lemma last_filter: "xs \<noteq> [] \<Longrightarrow> P (last xs) \<Longrightarrow> last (filter P xs) = last xs \<and> filter P xs \<noteq> []"
  by (induction xs) (auto split: if_splits)

lemma sint_of_nat_small:
  assumes "i < 2 ^ 63"
  shows "sint (of_nat i :: goint) = int i"
proof -
  have "int i < 2 ^ 63" using assms by simp
  then have "sint (word_of_int (int i) :: goint) = int i"
    by (simp only: sint_sbintrunc') (simp add: signed_take_bit_int_eq_self)
  then show ?thesis by simp
qed

lemma fmtInt_of_nat: "i < 2 ^ 63 \<Longrightarrow> fmtInt w (of_nat i :: goint) = zeroPad w (decimal i)"
  by (simp add: fmtInt_def sint_of_nat_small)

section \<open>Facts about the single-chunk path\<close>

lemma selectChunk_beyond_count:
  "int (length chunks) < sint chunkNo \<Longrightarrow>
   selectChunk chunkNo chunks =
     Exit 1 (''ERROR: '' @ fmtInt 0 chunkNo @ '' is incorrect chunk number. There is only ''
             @ fmtInt 0 (of_nat (length chunks)) @ '' of them.'' @ [CHR 0x0A])"
  by (simp add: selectChunk_def)

lemma selectChunk_at_count:
  "sint chunkNo = int (length chunks) \<Longrightarrow>
   selectChunk chunkNo chunks = Panicked (IndexOutOfRange chunkNo (length chunks))"
  by (simp add: selectChunk_def)

lemma selectChunk_in_range:
  "0 \<le> sint chunkNo \<Longrightarrow> sint chunkNo < int (length chunks) \<Longrightarrow>
   selectChunk chunkNo chunks = Proceed (chunks ! nat (sint chunkNo))"
  by (simp add: selectChunk_def)

section \<open>The properties\<close>

subsection \<open>The single-chunk path and its range check\<close>

text \<open>
  C1. The claim: for a chunk sequence of length \<open>n\<close>, an index \<open>\<ge> n\<close> given to the
  single-chunk path ends in a reported error that names \<open>n\<close> and exit status 1, never in a
  panic. The check of the source is \<^verbatim>\<open>*chunkPtr > len(chunks)\<close>, so the index \<open>n\<close> itself
  passes it and \<^verbatim>\<open>chunks[*chunkPtr]\<close> is an out-of-range access: with the three chunks
  of the stream below and \<^verbatim>\<open>-chunk 3\<close> the run panics. (An index above \<open>n\<close> is reported as
  the claim says: \<open>selectChunk_beyond_count\<close>.)
\<close>

theorem chunk_index_equal_to_count_panics:
  "\<exists>chunks.
     loadChunksFromFile [[''0''], [''10''], [''10''], [''20''], [''20''], [''30'']] 0 = Inr chunks \<and>
     length chunks = 3 \<and>
     selectChunk 3 chunks = Panicked (IndexOutOfRange 3 3)"
  by (simp add: evaluation_rules)

subsection \<open>When parsing succeeds\<close>

text \<open>
  C2, as stated, fails: the stream below has four non-ignore markers and starts with a
  non-ignore marker, but its ignore-marker at 25 comes after the first chunk is closed
  and before the second is opened, and the parser panics there.
\<close>

theorem parse_even_count_counterexample:
  "reads [[''10'', ''''], [''20'', ''''], [''25'', ''ignore''], [''30'', ''''], [''40'', '''']]
         [(10, False), (20, False), (25, True), (30, False), (40, False)] \<and>
   even (nonIgnoreCount [(10, False), (20, False), (25, True), (30, False), (40, False)]) \<and>
   takeWhile snd [(10 :: goint, False), (20, False), (25, True), (30, False), (40, False)] = [] \<and>
   loadChunksFromFile
     [[''10'', ''''], [''20'', ''''], [''25'', ''ignore''], [''30'', ''''], [''40'', '''']] 0 =
     Inl (OutOfChunkIgnoredMarker 25)"
  by (simp add: evaluation_rules)

text \<open>
  C2, amended: for every marker stream whose rows all have the same number of fields,
  with an even number of non-ignore markers, in which every ignore-marker has an odd
  number of non-ignore markers before it (it falls inside an open chunk), parsing
  succeeds, with any delay, and produces exactly (non-ignore marker count)/2 chunks.
  (The CSV reader refuses a row whose number of fields differs from the first row's,
  and the loop panics on that error.)
\<close>

theorem parse_succeeds_with_half_count:
  assumes "reads rs ms" and "equalFieldCounts rs"
    and "even (nonIgnoreCount ms)" and "ignoresInsideChunks ms"
  shows "\<exists>cs. loadChunksFromFile rs d = Inr cs \<and> length cs = nonIgnoreCount ms div 2"
proof -
  have u: "\<forall>r\<in>set rs. length r = length (hd rs)"
    using assms(2) by (simp add: equalFieldCounts_iff)
  have f: "(0 :: nat) = 0 \<or> 0 = length (hd rs)" by simp
  have "\<forall>i<length ms. \<not> idleIgnoreAt False ms i"
    using assms(4) by (simp add: ignoresInsideChunks_iff)
  from readLoop_success [OF assms(1) u f this, of None d "[]"] assms(3)
  show ?thesis by (simp add: loadChunksFromFile_def)
qed

theorem parse_succeeds_with_half_count_witness:
  "reads [[''10'', ''''], [''15'', ''ignore''], [''20'', '''']] [(10, False), (15, True), (20, False)] \<and>
   equalFieldCounts [[''10'', ''''], [''15'', ''ignore''], [''20'', '''']] \<and>
   even (nonIgnoreCount [(10, False), (15, True), (20, False)]) \<and>
   ignoresInsideChunks [(10, False), (15, True), (20, False)] \<and>
   (\<exists>cs. loadChunksFromFile [[''10'', ''''], [''15'', ''ignore''], [''20'', '''']] 0 = Inr cs \<and>
      length cs = nonIgnoreCount [(10, False), (15, True), (20, False)] div 2)"
proof -
  have h1: "reads [[''10'', ''''], [''15'', ''ignore''], [''20'', '''']]
      [(10, False), (15, True), (20, False)]"
    by (simp add: evaluation_rules)
  have h2: "even (nonIgnoreCount [(10 :: goint, False), (15, True), (20, False)])"
    by (simp add: nonIgnoreCount_def)
  have h3: "ignoresInsideChunks [(10 :: goint, False), (15, True), (20, False)]"
    by (simp add: ignoresInsideChunks_def nonIgnoreCount_def upt_rec)
  have h4: "equalFieldCounts [[''10'', ''''], [''15'', ''ignore''], [''20'', '''']]"
    by (simp add: equalFieldCounts_def)
  show ?thesis
    using parse_succeeds_with_half_count [OF h1 h4 h2 h3, of 0] h1 h2 h3 h4 by simp
qed

subsection \<open>The example stream of the specification\<close>

text \<open>
  C3, as stated, fails: on the rows (10), (20), (25, ignore), (30) with delay 0 the parser
  produces no chunks. The marker at 20 closes the chunk opened at 10, so the ignore-marker
  at 25 is met with no chunk open and the parser panics.
\<close>

theorem spec_example_counterexample:
  "loadChunksFromFile [[''10'', ''''], [''20'', ''''], [''25'', ''ignore''], [''30'', '''']] 0 =
     Inl (OutOfChunkIgnoredMarker 25)"
  by (simp add: evaluation_rules)

text \<open>
  C3, amended: on the rows (10), (20), (25, ignore), (30) with delay 0 the parser fails
  with the out-of-chunk-ignored-marker panic carrying 25. The two chunks of the claim,
  10 to 20 with nothing ignored and 20 to 30 with 25 ignored, are what the parser produces
  on the rows (10), (20), (20), (25, ignore), (30), under the names chunk-00.mp4 and
  chunk-01.mp4; their highlights are 00:00:10 cut, 00:00:15 ignored, 00:00:20 cut.
\<close>

theorem spec_example_amended:
  "loadChunksFromFile [[''10'', ''''], [''20'', ''''], [''25'', ''ignore''], [''30'', '''']] 0 =
     Inl (OutOfChunkIgnoredMarker 25) \<and>
   loadChunksFromFile
     [[''10'', ''''], [''20'', ''''], [''20'', ''''], [''25'', ''ignore''], [''30'', '''']] 0 =
     Inr [\<lparr>Start = 10, End = 20, Ignored = [], Name = ''chunk-00.mp4''\<rparr>,
          \<lparr>Start = 20, End = 30, Ignored = [25], Name = ''chunk-01.mp4''\<rparr>] \<and>
   highlightChunks
     [\<lparr>Start = 10, End = 20, Ignored = [], Name = ''chunk-00.mp4''\<rparr>,
      \<lparr>Start = 20, End = 30, Ignored = [25], Name = ''chunk-01.mp4''\<rparr>] =
     Inr [\<lparr>timestamp = ''00:00:10'', message = ''cut''\<rparr>,
          \<lparr>timestamp = ''00:00:15'', message = ''ignored''\<rparr>,
          \<lparr>timestamp = ''00:00:20'', message = ''cut''\<rparr>]"
  by (simp add: evaluation_rules)

subsection \<open>Chunk names\<close>

text \<open>
  C4, as stated, fails: the name is not only \<open>chunk-\<close> and the padded index, the format
  string of the source is \<^verbatim>\<open>chunk-%02d.mp4\<close>.
\<close>

theorem chunk_name_counterexample:
  "loadChunksFromFile [[''10''], [''20'']] 0 =
     Inr [\<lparr>Start = 10, End = 20, Ignored = [], Name = ''chunk-00.mp4''\<rparr>] \<and>
   ''chunk-00.mp4'' \<noteq> ''chunk-'' @ zeroPad 2 (decimal 0)"
proof -
  have "zeroPad 2 (decimal 0) = ''00''"
    by (simp add: zeroPad_def decimal.simps digitChar_def)
  then show ?thesis
    by (simp add: evaluation_rules)
qed

text \<open>
  C4, amended: for every successful parse, the \<open>i\<close>-th finalized chunk (zero-based, in
  emission order) has the name \<open>chunk-\<close>, then \<open>i\<close> as \<^verbatim>\<open>%02d\<close> writes it (for \<open>i\<close> below
  \<open>2^63\<close>: its decimal digits zero-padded to at least 2), then \<open>.mp4\<close>.
\<close>

theorem chunk_names_have_mp4_suffix:
  assumes "loadChunksFromFile rs d = Inr cs" and "i < length cs"
  shows "Name (cs ! i) = ''chunk-'' @ fmtInt 2 (of_nat i) @ ''.mp4'' \<and>
         (i < 2 ^ 63 \<longrightarrow> fmtInt 2 (of_nat i) = zeroPad 2 (decimal i))"
proof -
  have "\<forall>i<length cs. Name (cs ! i) = ''chunk-'' @ fmtInt 2 (of_nat i) @ ''.mp4''"
    using readLoop_names [of d 0 rs "[]" None cs] assms(1)
    by (simp add: loadChunksFromFile_def)
  with assms(2) show ?thesis by (simp add: fmtInt_of_nat)
qed

theorem chunk_names_have_mp4_suffix_witness:
  "loadChunksFromFile [[''10''], [''20'']] 0 =
     Inr [\<lparr>Start = 10, End = 20, Ignored = [], Name = ''chunk-00.mp4''\<rparr>] \<and>
   (0 :: nat) < length [\<lparr>Start = 10, End = 20, Ignored = [], Name = ''chunk-00.mp4''\<rparr>] \<and>
   (0 :: nat) < 2 ^ 63 \<and>
   Name ([\<lparr>Start = 10, End = 20, Ignored = [], Name = ''chunk-00.mp4''\<rparr>] ! 0) =
     ''chunk-'' @ fmtInt 2 (of_nat 0) @ ''.mp4'' \<and>
   fmtInt 2 (of_nat 0) = zeroPad 2 (decimal 0)"
proof -
  have h1: "loadChunksFromFile [[''10''], [''20'']] 0 =
     Inr [\<lparr>Start = 10, End = 20, Ignored = [], Name = ''chunk-00.mp4''\<rparr>]"
    by (simp add: evaluation_rules)
  have h2: "(0 :: nat) < length [\<lparr>Start = 10 :: goint, End = 20, Ignored = [], Name = ''chunk-00.mp4''\<rparr>]"
    by simp
  show ?thesis
    using chunk_names_have_mp4_suffix [OF h1 h2] h1 by simp
qed

subsection \<open>When parsing fails\<close>

text \<open>
  C5, as stated, fails in its second half: a stream with an odd number of non-ignore
  markers does not always end in the unclosed-chunk panic. The stream below has five
  non-ignore markers; its ignore-marker at 7 is met with no chunk open, and the parser
  panics there, before it reaches the end of the stream.
\<close>

theorem odd_count_counterexample:
  "reads [[''5'', ''''], [''6'', ''''], [''7'', ''ignore''], [''8'', ''''], [''9'', ''''], [''10'', '''']]
         [(5, False), (6, False), (7, True), (8, False), (9, False), (10, False)] \<and>
   odd (nonIgnoreCount [(5, False), (6, False), (7, True), (8, False), (9, False), (10, False)]) \<and>
   loadChunksFromFile
     [[''5'', ''''], [''6'', ''''], [''7'', ''ignore''], [''8'', ''''], [''9'', ''''], [''10'', '''']] 0 =
     Inl (OutOfChunkIgnoredMarker 7) \<and>
   OutOfChunkIgnoredMarker 7 \<noteq> UnclosedChunk"
  by (simp add: evaluation_rules)

text \<open>
  C5, amended: parsing a stream whose first record is an ignore-marker fails with the
  out-of-chunk-ignored-marker panic, carrying the timestamp of that record with the delay
  added. Parsing a stream whose rows all have the same number of fields, with an odd
  number of non-ignore markers, fails: with the unclosed-chunk panic when every
  ignore-marker has an odd number of non-ignore markers before it, and otherwise with the
  out-of-chunk-ignored-marker panic, carrying the delayed timestamp of the first
  ignore-marker that has an even number of non-ignore markers before it. (A row whose
  number of fields differs from the first row's makes the loop panic earlier, on the
  error of the CSV reader.)
\<close>

theorem parser_rejection:
  "(readRecord r = Inr (t, True) \<longrightarrow>
      loadChunksFromFile (r # rest) d = Inl (OutOfChunkIgnoredMarker (t + d))) \<and>
   (reads rs ms \<and> equalFieldCounts rs \<and> odd (nonIgnoreCount ms) \<longrightarrow>
      (if ignoresInsideChunks ms then loadChunksFromFile rs d = Inl UnclosedChunk
       else \<exists>i<length ms. snd (ms ! i) \<and> even (nonIgnoreCount (take i ms)) \<and>
              (\<forall>j<i. snd (ms ! j) \<longrightarrow> odd (nonIgnoreCount (take j ms))) \<and>
              loadChunksFromFile rs d = Inl (OutOfChunkIgnoredMarker (fst (ms ! i) + d))))"
proof (intro conjI impI)
  assume "readRecord r = Inr (t, True)"
  then show "loadChunksFromFile (r # rest) d = Inl (OutOfChunkIgnoredMarker (t + d))"
    by (simp add: loadChunksFromFile_def csvRead_def)
next
  assume a: "reads rs ms \<and> equalFieldCounts rs \<and> odd (nonIgnoreCount ms)"
  then have u: "\<forall>r\<in>set rs. length r = length (hd rs)"
    by (simp add: equalFieldCounts_iff)
  have f: "(0 :: nat) = 0 \<or> 0 = length (hd rs)" by simp
  show "if ignoresInsideChunks ms then loadChunksFromFile rs d = Inl UnclosedChunk
       else \<exists>i<length ms. snd (ms ! i) \<and> even (nonIgnoreCount (take i ms)) \<and>
              (\<forall>j<i. snd (ms ! j) \<longrightarrow> odd (nonIgnoreCount (take j ms))) \<and>
              loadChunksFromFile rs d = Inl (OutOfChunkIgnoredMarker (fst (ms ! i) + d))"
  proof (cases "ignoresInsideChunks ms")
    case True
    then have "\<forall>i<length ms. \<not> idleIgnoreAt False ms i"
      by (simp add: ignoresInsideChunks_iff)
    from readLoop_unclosed [OF _ u f this, of None d "[]"] a True
    show ?thesis by (simp add: loadChunksFromFile_def)
  next
    case False
    then have "\<exists>i<length ms. idleIgnoreAt False ms i"
      by (simp add: ignoresInsideChunks_iff)
    from readLoop_out_of_chunk [OF _ u f this, of None d "[]"] a
    obtain i where "i < length ms" "idleIgnoreAt False ms i"
      "\<forall>j<i. \<not> idleIgnoreAt False ms j"
      "readLoop d 0 rs [] None = Inl (OutOfChunkIgnoredMarker (fst (ms ! i) + d))"
      by auto
    then have "i < length ms \<and> snd (ms ! i) \<and> even (nonIgnoreCount (take i ms)) \<and>
              (\<forall>j<i. snd (ms ! j) \<longrightarrow> odd (nonIgnoreCount (take j ms))) \<and>
              loadChunksFromFile rs d = Inl (OutOfChunkIgnoredMarker (fst (ms ! i) + d))"
      by (simp add: idleIgnoreAt_def loadChunksFromFile_def)
    with False show ?thesis by auto
  qed
qed

theorem parser_rejection_witness:
  "readRecord [''5'', ''ignore''] = Inr (5, True) \<and>
   loadChunksFromFile [[''5'', ''ignore''], [''9'', '''']] 2 = Inl (OutOfChunkIgnoredMarker 7) \<and>
   reads [[''10'', ''''], [''15'', ''ignore''], [''20'', ''''], [''30'', '''']]
         [(10, False), (15, True), (20, False), (30, False)] \<and>
   equalFieldCounts [[''10'', ''''], [''15'', ''ignore''], [''20'', ''''], [''30'', '''']] \<and>
   odd (nonIgnoreCount [(10, False), (15, True), (20, False), (30, False)]) \<and>
   ignoresInsideChunks [(10, False), (15, True), (20, False), (30, False)] \<and>
   loadChunksFromFile [[''10'', ''''], [''15'', ''ignore''], [''20'', ''''], [''30'', '''']] 2 =
     Inl UnclosedChunk"
proof -
  have h1: "readRecord [''5'', ''ignore''] = Inr (5, True)"
    by (simp add: evaluation_rules)
  have h2: "reads [[''10'', ''''], [''15'', ''ignore''], [''20'', ''''], [''30'', '''']]
         [(10, False), (15, True), (20, False), (30, False)]"
    by (simp add: evaluation_rules)
  have h3: "odd (nonIgnoreCount [(10 :: goint, False), (15, True), (20, False), (30, False)])"
    by (simp add: nonIgnoreCount_def)
  have h4: "ignoresInsideChunks [(10 :: goint, False), (15, True), (20, False), (30, False)]"
    by (simp add: ignoresInsideChunks_def nonIgnoreCount_def upt_rec)
  have h5: "equalFieldCounts [[''10'', ''''], [''15'', ''ignore''], [''20'', ''''], [''30'', '''']]"
    by (simp add: equalFieldCounts_def)
  show ?thesis
    using parser_rejection [of "[''5'', ''ignore'']" 5 "[[''9'', '''']]" 2
        "[[''10'', ''''], [''15'', ''ignore''], [''20'', ''''], [''30'', '''']]"
        "[(10, False), (15, True), (20, False), (30, False)]"]
      h1 h2 h3 h4 h5 by simp
qed

subsection \<open>The delay\<close>

text \<open>
  The delay is added with the \<open>+\<close> of Go's \<^verbatim>\<open>int\<close>, which wraps around at 64 bits; as
  long as the sum stays in the range of \<^verbatim>\<open>int\<close>, it is the sum of the integers.
\<close>

lemma delayed_timestamp_exact:
  "- (2 ^ 63) \<le> sint t + sint d \<Longrightarrow> sint t + sint d < 2 ^ 63 \<Longrightarrow>
   sint (t + d :: goint) = sint t + sint d"
  by (simp add: sint_word_ariths signed_take_bit_int_eq_self)

lemma loadChunksFromFile_delay:
  "loadChunksFromFile rs d =
     (case loadChunksFromFile rs 0 of
        Inl e \<Rightarrow> Inl (delayPanic d e)
      | Inr cs \<Rightarrow> Inr (map (delayChunk d) cs))"
  using readLoop_delay [of d 0 rs "[]" None] by (simp add: loadChunksFromFile_def)

lemma delayedBy_add: "delayedBy d t (t + d)"
  by (simp add: delayedBy_def addInRange_def delayed_timestamp_exact)

lemma delayedBy_map: "list_all2 (delayedBy d) ts (map (\<lambda>t. t + d) ts)"
  by (induction ts) (simp_all add: delayedBy_add)

text \<open>
  C6, as stated, fails: the delay is added in Go's \<^verbatim>\<open>int\<close>, so a timestamp near the end
  of its range wraps around. The two rows below hold the largest \<^verbatim>\<open>int\<close>; with delay 1
  the chunk starts and ends at the smallest \<^verbatim>\<open>int\<close>, which is not 1 greater.
\<close>

theorem delay_wraps_counterexample:
  "loadChunksFromFile [[''9223372036854775807''], [''9223372036854775807'']] 0 =
     Inr [\<lparr>Start = 9223372036854775807, End = 9223372036854775807, Ignored = [],
           Name = ''chunk-00.mp4''\<rparr>] \<and>
   loadChunksFromFile [[''9223372036854775807''], [''9223372036854775807'']] 1 =
     Inr [\<lparr>Start = - 9223372036854775808, End = - 9223372036854775808, Ignored = [],
           Name = ''chunk-00.mp4''\<rparr>] \<and>
   sint (- 9223372036854775808 :: goint) \<noteq> sint (9223372036854775807 :: goint) + sint (1 :: goint)"
proof -
  have a: "readRecord [''9223372036854775807''] = Inr (9223372036854775807, False)"
    by (simp add: readRecord_def atoiDigits_def isDigit_def digitVal_def)
  have b: "(9223372036854775807 :: goint) + 1 = - 9223372036854775808"
    by simp
  show ?thesis
    by (simp add: loadChunksFromFile_def csvRead_def a b fmtInt_def zeroPad_def
        decimal.simps digitChar_def)
qed

text \<open>
  C6, amended: for every sequence of rows and every delay \<open>d\<close> (a Go \<^verbatim>\<open>int\<close>, possibly
  negative), parsing with delay \<open>d\<close> succeeds exactly when parsing with delay 0 succeeds,
  and on success yields the same number of chunks, where every start, end and ignored
  timestamp is the one of the delay-0 result with \<open>d\<close> added by Go's wrapping \<open>+\<close>; it is
  exactly \<open>d\<close> greater whenever the sum of that timestamp and \<open>d\<close> lies in the range of
  \<^verbatim>\<open>int\<close>, from \<open>-2^63\<close> to \<open>2^63 - 1\<close>.
\<close>

theorem delay_invariance:
  "((\<exists>cs. loadChunksFromFile rs d = Inr cs) \<longleftrightarrow> (\<exists>cs0. loadChunksFromFile rs 0 = Inr cs0)) \<and>
   (\<forall>cs0. loadChunksFromFile rs 0 = Inr cs0 \<longrightarrow>
      (\<exists>cs. loadChunksFromFile rs d = Inr cs \<and> length cs = length cs0 \<and>
         (\<forall>i<length cs0.
            delayedBy d (Start (cs0 ! i)) (Start (cs ! i)) \<and>
            delayedBy d (End (cs0 ! i)) (End (cs ! i)) \<and>
            list_all2 (delayedBy d) (Ignored (cs0 ! i)) (Ignored (cs ! i)))))"
  by (subst (1 2) loadChunksFromFile_delay [of rs d])
     (auto simp: delayChunk_def delayedBy_add delayedBy_map split: sum.splits)

theorem delay_invariance_witness:
  "loadChunksFromFile [[''10'', ''''], [''15'', ''ignore''], [''20'', '''']] 0 =
     Inr [\<lparr>Start = 10, End = 20, Ignored = [15], Name = ''chunk-00.mp4''\<rparr>] \<and>
   (\<exists>cs. loadChunksFromFile [[''10'', ''''], [''15'', ''ignore''], [''20'', '''']] (- 3) = Inr cs \<and>
      length cs = 1 \<and> sint (Start (cs ! 0)) = 7 \<and> sint (End (cs ! 0)) = 17 \<and>
      map sint (Ignored (cs ! 0)) = [12])"
proof -
  have h: "loadChunksFromFile [[''10'', ''''], [''15'', ''ignore''], [''20'', '''']] 0 =
     Inr [\<lparr>Start = 10, End = 20, Ignored = [15], Name = ''chunk-00.mp4''\<rparr>]"
    by (simp add: evaluation_rules)
  have r: "addInRange 10 (- 3)" "addInRange 20 (- 3)" "addInRange 15 (- 3)"
    by (simp_all add: addInRange_def)
  show ?thesis
    using delay_invariance [of "[[''10'', ''''], [''15'', ''ignore''], [''20'', '''']]" "- 3"] h r
    by (auto simp: delayedBy_def list_all2_Cons1)
qed

subsection \<open>The timestamp codec\<close>

lemma sdiv_nonneg: "0 \<le> k \<Longrightarrow> (k :: int) sdiv 60 = k div 60"
  by (simp add: signed_divide_int_def sgn_if)

lemma smod_nonneg: "0 \<le> k \<Longrightarrow> (k :: int) smod 60 = k mod 60"
  by (simp add: signed_modulo_int_def sgn_if)

lemma godiv_of_nat:
  assumes "n < 2 ^ 63"
  shows "godiv (of_nat n) 60 = of_nat (n div 60)"
proof -
  have "int n div 60 = int (n div 60)" by (simp add: zdiv_int)
  then show ?thesis
    using assms by (simp add: godiv_def sint_of_nat_small sdiv_nonneg)
qed

lemma gomod_of_nat:
  assumes "n < 2 ^ 63"
  shows "gomod (of_nat n) 60 = of_nat (n mod 60)"
proof -
  have "int n mod 60 = int (n mod 60)" by (simp add: zmod_int)
  then show ?thesis
    using assms by (simp add: gomod_def sint_of_nat_small smod_nonneg)
qed

lemma secsToTs_of_nat:
  assumes "n < 2 ^ 63"
  shows "secsToTs (of_nat n) =
     zeroPad 2 (decimal (n div 3600)) @ '':'' @ zeroPad 2 (decimal (n div 60 mod 60)) @ '':'' @
     zeroPad 2 (decimal (n mod 60))"
proof -
  have a: "n div 60 < 2 ^ 63" "n div 60 div 60 < 2 ^ 63" "n div 60 mod 60 < 2 ^ 63" "n mod 60 < 2 ^ 63"
    using assms by (auto intro: le_less_trans [OF div_le_dividend] le_less_trans [OF mod_less_eq_dividend])
  have b: "n div 60 div 60 = n div 3600"
    by (simp add: div_mult2_eq [symmetric])
  have g: "godiv (of_nat n) 60 = of_nat (n div 60)"
    "godiv (of_nat (n div 60)) 60 = of_nat (n div 60 div 60)"
    "gomod (of_nat (n div 60)) 60 = of_nat (n div 60 mod 60)"
    "gomod (of_nat n) 60 = of_nat (n mod 60)"
    by (rule godiv_of_nat gomod_of_nat, rule assms a)+
  have f: "fmtInt 2 (of_nat (n div 60 div 60) :: goint) = zeroPad 2 (decimal (n div 60 div 60))"
    "fmtInt 2 (of_nat (n div 60 mod 60) :: goint) = zeroPad 2 (decimal (n div 60 mod 60))"
    "fmtInt 2 (of_nat (n mod 60) :: goint) = zeroPad 2 (decimal (n mod 60))"
    by (rule fmtInt_of_nat, rule a)+
  show ?thesis
    by (simp only: secsToTs_def Let_def g f b f(1) [unfolded b])
qed

text \<open>
  C7. For every \<open>s\<close> with \<open>0 \<le> s \<le> 359999\<close>, decoding the encoded timestamp returns \<open>s\<close>,
  and the encoding is \<open>HH:MM:SS\<close> with \<open>HH = s / 3600\<close>, \<open>MM = (s / 60) mod 60\<close> and
  \<open>SS = s mod 60\<close>, each in decimal digits zero-padded to at least 2. (The round trip
  alone holds for every \<^verbatim>\<open>int\<close>: \<open>tsToSecs_secsToTs\<close>.)
\<close>

theorem codec_round_trip:
  assumes "0 \<le>s s" and "s \<le>s 359999"
  shows "tsToSecs (secsToTs s) = Inr s \<and>
         secsToTs s =
           zeroPad 2 (decimal (nat (sint s) div 3600)) @ '':'' @
           zeroPad 2 (decimal (nat (sint s) div 60 mod 60)) @ '':'' @
           zeroPad 2 (decimal (nat (sint s) mod 60))"
proof -
  from assms(1) have nn: "0 \<le> sint s" by (simp add: word_sle_eq)
  then have s: "s = of_nat (nat (sint s))" by simp
  have "nat (sint s) < 2 ^ 63" using sint_lt [of s] nn by simp
  from secsToTs_of_nat [OF this] s have "secsToTs s =
           zeroPad 2 (decimal (nat (sint s) div 3600)) @ '':'' @
           zeroPad 2 (decimal (nat (sint s) div 60 mod 60)) @ '':'' @
           zeroPad 2 (decimal (nat (sint s) mod 60))"
    by simp
  with tsToSecs_secsToTs [of s] show ?thesis by (rule conjI)
qed

theorem codec_round_trip_witness:
  "(0 :: goint) \<le>s 3725 \<and> (3725 :: goint) \<le>s 359999 \<and>
   tsToSecs (secsToTs 3725) = Inr 3725 \<and> secsToTs 3725 = ''01:02:05''"
proof -
  have h1: "(0 :: goint) \<le>s 3725" by (simp add: word_sle_eq)
  have h2: "(3725 :: goint) \<le>s 359999" by simp
  have e: "secsToTs 3725 = ''01:02:05''" by (simp add: evaluation_rules)
  have r: "tsToSecs (secsToTs 3725) = Inr 3725"
    using codec_round_trip [OF h1 h2] by (rule conjunct1)
  from h1 h2 r e show ?thesis by (intro conjI)
qed

subsection \<open>The order of the timestamps in a chunk\<close>

text \<open>
  C8, as stated, fails: the parser does not compare timestamps, so markers that go back in
  time give a chunk that ends before it starts.
\<close>

theorem chunk_order_counterexample:
  "loadChunksFromFile [[''20''], [''10'']] 0 =
     Inr [\<lparr>Start = 20, End = 10, Ignored = [], Name = ''chunk-00.mp4''\<rparr>] \<and>
   \<not> Start \<lparr>Start = 20, End = 10, Ignored = [], Name = ''chunk-00.mp4''\<rparr>
       \<le>s End \<lparr>Start = 20, End = 10, Ignored = [], Name = ''chunk-00.mp4''\<rparr>"
  by (simp add: evaluation_rules)

text \<open>
  C8, amended: when the timestamps of the stream, with the delay added, do not decrease in
  input order, every chunk in the sequence returned by a successful parse satisfies
  \<open>end \<ge> start\<close>, and every timestamp \<open>t\<close> in its ignored sequence satisfies
  \<open>start \<le> t \<le> end\<close>.
\<close>

theorem chunks_well_timed_when_sorted:
  assumes "reads rs ms" and "sorted_wrt (\<le>s) (map (\<lambda>m. fst m + d) ms)"
    and "loadChunksFromFile rs d = Inr cs" and "c \<in> set cs"
  shows "Start c \<le>s End c \<and> (\<forall>t\<in>set (Ignored c). Start c \<le>s t \<and> t \<le>s End c)"
proof -
  have "list_all wellTimed cs"
    using readLoop_wellTimed [OF assms(1), of None d "[]" 0 cs] assms(2,3)
    by (simp add: loadChunksFromFile_def)
  with assms(4) have "wellTimed c" by (simp add: list_all_iff)
  then show ?thesis by (simp add: wellTimed_def list_all_iff)
qed

theorem chunks_well_timed_when_sorted_witness:
  "reads [[''10'', ''''], [''15'', ''ignore''], [''20'', '''']] [(10, False), (15, True), (20, False)] \<and>
   sorted_wrt (\<le>s) (map (\<lambda>m. fst m + 5) [(10 :: goint, False), (15, True), (20, False)]) \<and>
   loadChunksFromFile [[''10'', ''''], [''15'', ''ignore''], [''20'', '''']] 5 =
     Inr [\<lparr>Start = 15, End = 25, Ignored = [20], Name = ''chunk-00.mp4''\<rparr>] \<and>
   \<lparr>Start = 15, End = 25, Ignored = [20], Name = ''chunk-00.mp4''\<rparr>
     \<in> set [\<lparr>Start = 15, End = 25, Ignored = [20], Name = ''chunk-00.mp4''\<rparr>] \<and>
   (15 :: goint) \<le>s 25 \<and> (15 :: goint) \<le>s 20 \<and> (20 :: goint) \<le>s 25"
proof -
  have h1: "reads [[''10'', ''''], [''15'', ''ignore''], [''20'', '''']]
      [(10, False), (15, True), (20, False)]"
    by (simp add: evaluation_rules)
  have h2: "sorted_wrt (\<le>s) (map (\<lambda>m. fst m + 5) [(10 :: goint, False), (15, True), (20, False)])"
    by simp
  have h3: "loadChunksFromFile [[''10'', ''''], [''15'', ''ignore''], [''20'', '''']] 5 =
     Inr [\<lparr>Start = 15, End = 25, Ignored = [20], Name = ''chunk-00.mp4''\<rparr>]"
    by (simp add: evaluation_rules)
  have h4: "\<lparr>Start = 15, End = 25, Ignored = [20], Name = ''chunk-00.mp4''\<rparr>
     \<in> set [\<lparr>Start = 15 :: goint, End = 25, Ignored = [20], Name = ''chunk-00.mp4''\<rparr>]"
    by simp
  show ?thesis
    using chunks_well_timed_when_sorted [OF h1 h2 h3 h4] h1 h2 h3 by simp
qed

subsection \<open>The highlight timeline\<close>

lemma chunksLoop_keeps: "chunksLoop secs cs hs = Inr hs' \<Longrightarrow> hs \<noteq> [] \<Longrightarrow> hs' \<noteq> []"
  by (induction cs arbitrary: secs hs) (auto split: sum.splits)

lemma chunksLoop_nonempty: "chunksLoop secs cs hs = Inr hs' \<Longrightarrow> cs \<noteq> [] \<Longrightarrow> hs' \<noteq> []"
  by (cases cs) (auto split: sum.splits dest: chunksLoop_keeps)

lemma highlightChunks_panics_on_reversed_chunk:
  "highlightChunks [\<lparr>Start = 20, End = 10, Ignored = [], Name = ''chunk-00.mp4''\<rparr>] =
     Inl AssertionFailedIncorrectEnd"
  by (simp add: evaluation_rules)

lemma totalDuration_nonneg: "list_all startsFirst cs \<Longrightarrow> 0 \<le> totalDuration cs"
  by (induction cs) (auto simp: totalDuration_def startsFirst_def word_sle_eq)

lemma sint_sum_durations:
  "list_all startsFirst cs \<Longrightarrow> totalDuration cs < 2 ^ 63 \<Longrightarrow>
   sint (sum_list (map (\<lambda>c. End c - Start c) cs)) = totalDuration cs"
proof (induction cs)
  case Nil
  then show ?case by (simp add: totalDuration_def)
next
  case (Cons c cs)
  let ?dc = "sint (End c) - sint (Start c)"
  from Cons.prems(1) have rest: "list_all startsFirst cs" and "startsFirst c"
    by simp_all
  then have c: "0 \<le> ?dc"
    by (simp add: startsFirst_def word_sle_eq)
  have tot: "totalDuration (c # cs) = ?dc + totalDuration cs"
    by (simp add: totalDuration_def)
  have nn: "0 \<le> totalDuration cs"
    using rest by (rule totalDuration_nonneg)
  with c tot Cons.prems(2) have b: "?dc < 2 ^ 63" "totalDuration cs < 2 ^ 63"
    by simp_all
  have d: "sint (End c - Start c) = ?dc"
    using c b(1) by (simp add: sint_word_ariths signed_take_bit_int_eq_self)
  have s: "sint (sum_list (map (\<lambda>c. End c - Start c) cs)) = totalDuration cs"
    using Cons.IH [OF rest b(2)] .
  let ?S = "sum_list (map (\<lambda>c. End c - Start c) cs)"
  have "sint (End c - Start c + ?S) = signed_take_bit 63 (sint (End c - Start c) + sint ?S)"
    by (simp add: sint_word_add)
  also have "\<dots> = signed_take_bit 63 (?dc + totalDuration cs)"
    by (simp only: d s)
  also have "\<dots> = ?dc + totalDuration cs"
    using c nn tot Cons.prems(2) by (simp add: signed_take_bit_int_eq_self)
  finally show ?case
    using tot by simp
qed

text \<open>
  C9, as stated, fails: \<open>end - start\<close> and the running sum are computed in Go's \<^verbatim>\<open>int\<close>
  and wrap around. The chunk below comes from a parse, and satisfies \<open>start \<le> end\<close>; its
  "cut" highlight is \<open>00:00:-1\<close>, which decodes to \<open>-1\<close>, while \<open>end - start\<close> is
  \<open>2^64 - 1\<close>.
\<close>

theorem total_duration_counterexample:
  "loadChunksFromFile [[''-9223372036854775808''], [''9223372036854775807'']] 0 =
     Inr [\<lparr>Start = - 9223372036854775808, End = 9223372036854775807, Ignored = [],
           Name = ''chunk-00.mp4''\<rparr>] \<and>
   list_all startsFirst
     [\<lparr>Start = - 9223372036854775808, End = 9223372036854775807, Ignored = [],
       Name = ''chunk-00.mp4''\<rparr>] \<and>
   highlightChunks
     [\<lparr>Start = - 9223372036854775808, End = 9223372036854775807, Ignored = [],
       Name = ''chunk-00.mp4''\<rparr>] =
     Inr [\<lparr>timestamp = ''00:00:-1'', message = ''cut''\<rparr>] \<and>
   tsToSecs ''00:00:-1'' = Inr (- 1) \<and>
   totalDuration
     [\<lparr>Start = - 9223372036854775808, End = 9223372036854775807, Ignored = [],
       Name = ''chunk-00.mp4''\<rparr>] = 18446744073709551615 \<and>
   sint (- 1 :: goint) \<noteq> 18446744073709551615"
proof -
  have a: "readRecord [''-9223372036854775808''] = Inr (- 9223372036854775808, False)"
    "readRecord [''9223372036854775807''] = Inr (9223372036854775807, False)"
    by (simp_all add: readRecord_def atoiDigits_def isDigit_def digitVal_def)
  have p: "loadChunksFromFile [[''-9223372036854775808''], [''9223372036854775807'']] 0 =
     Inr [\<lparr>Start = - 9223372036854775808, End = 9223372036854775807, Ignored = [],
           Name = ''chunk-00.mp4''\<rparr>]"
    by (simp add: loadChunksFromFile_def csvRead_def a fmtInt_def zeroPad_def
        decimal.simps digitChar_def)
  have le: "(- 9223372036854775808 :: goint) \<le>s 9223372036854775807"
    by (simp add: word_sle_eq)
  have e: "(9223372036854775807 :: goint) - (- 9223372036854775808) = - 1"
    by simp
  have ts: "secsToTs (- 1) = ''00:00:-1''" "secsToTs 18446744073709551615 = ''00:00:-1''"
    by (simp_all add: evaluation_rules)
  have h: "highlightChunks
     [\<lparr>Start = - 9223372036854775808, End = 9223372036854775807, Ignored = [],
       Name = ''chunk-00.mp4''\<rparr>] =
     Inr [\<lparr>timestamp = ''00:00:-1'', message = ''cut''\<rparr>]"
    using le by (simp add: highlightChunks_def Duration_def e ts word_sless_alt word_sle_eq)
  have d: "tsToSecs ''00:00:-1'' = Inr (- 1)"
    by (simp add: evaluation_rules)
  have t: "totalDuration
     [\<lparr>Start = - 9223372036854775808, End = 9223372036854775807, Ignored = [],
       Name = ''chunk-00.mp4''\<rparr>] = 18446744073709551615"
    by (simp add: totalDuration_def)
  have n: "sint (- 1 :: goint) \<noteq> 18446744073709551615"
    by simp
  from p le h d t n show ?thesis
    by (simp add: startsFirst_def)
qed

text \<open>
  C9, amended: for every non-empty chunk sequence in which each chunk satisfies
  \<open>start \<le> end\<close> and \<open>start \<le> t\<close> for each ignored \<open>t\<close>, and in which the sum of
  \<open>end - start\<close> over all chunks is below \<open>2^63\<close> (it is in the range of \<^verbatim>\<open>int\<close>), the
  highlights are derived, there is a last "cut" highlight, and its timestamp decodes to
  the sum of \<open>end - start\<close> over all chunks.
\<close>

theorem last_cut_is_total_duration:
  assumes "cs \<noteq> []" and "list_all startsFirst cs" and "totalDuration cs < 2 ^ 63"
  shows "\<exists>hs secs. highlightChunks cs = Inr hs \<and> cuts hs \<noteq> [] \<and>
           tsToSecs (timestamp (last (cuts hs))) = Inr secs \<and>
           sint secs = totalDuration cs"
proof -
  from chunksLoop_ok [OF assms(2), of 0 "[]"] assms(1)
  obtain hs where hs: "chunksLoop 0 cs [] = Inr hs"
    "last hs = \<lparr>timestamp = secsToTs (sum_list (map (\<lambda>c. End c - Start c) cs)), message = ''cut''\<rparr>"
    by auto
  have "hs \<noteq> []"
    using hs(1) assms(1) by (rule chunksLoop_nonempty)
  with hs(2) have "last (cuts hs) = last hs \<and> cuts hs \<noteq> []"
    unfolding cuts_def by (intro last_filter) simp_all
  with hs sint_sum_durations [OF assms(2,3)] show ?thesis
    by (simp add: highlightChunks_def tsToSecs_secsToTs)
qed

theorem last_cut_is_total_duration_witness:
  "[\<lparr>Start = 10, End = 20, Ignored = [], Name = ''chunk-00.mp4''\<rparr>,
    \<lparr>Start = 20, End = 30, Ignored = [25], Name = ''chunk-01.mp4''\<rparr>] \<noteq> [] \<and>
   list_all startsFirst
     [\<lparr>Start = 10, End = 20, Ignored = [], Name = ''chunk-00.mp4''\<rparr>,
      \<lparr>Start = 20, End = 30, Ignored = [25], Name = ''chunk-01.mp4''\<rparr>] \<and>
   totalDuration
     [\<lparr>Start = 10, End = 20, Ignored = [], Name = ''chunk-00.mp4''\<rparr>,
      \<lparr>Start = 20, End = 30, Ignored = [25], Name = ''chunk-01.mp4''\<rparr>] = 20 \<and>
   (\<exists>hs secs. highlightChunks
       [\<lparr>Start = 10, End = 20, Ignored = [], Name = ''chunk-00.mp4''\<rparr>,
        \<lparr>Start = 20, End = 30, Ignored = [25], Name = ''chunk-01.mp4''\<rparr>] = Inr hs \<and>
      cuts hs \<noteq> [] \<and> tsToSecs (timestamp (last (cuts hs))) = Inr secs \<and> sint secs = 20)"
proof -
  have h1: "[\<lparr>Start = 10 :: goint, End = 20, Ignored = [], Name = ''chunk-00.mp4''\<rparr>,
    \<lparr>Start = 20, End = 30, Ignored = [25], Name = ''chunk-01.mp4''\<rparr>] \<noteq> []"
    by simp
  have h2: "list_all startsFirst
     [\<lparr>Start = 10, End = 20, Ignored = [], Name = ''chunk-00.mp4''\<rparr>,
      \<lparr>Start = 20, End = 30, Ignored = [25], Name = ''chunk-01.mp4''\<rparr>]"
    by (simp add: startsFirst_def)
  have t: "totalDuration
     [\<lparr>Start = 10, End = 20, Ignored = [], Name = ''chunk-00.mp4''\<rparr>,
      \<lparr>Start = 20, End = 30, Ignored = [25], Name = ''chunk-01.mp4''\<rparr>] = 20"
    by (simp add: totalDuration_def)
  then have h3: "totalDuration
     [\<lparr>Start = 10, End = 20, Ignored = [], Name = ''chunk-00.mp4''\<rparr>,
      \<lparr>Start = 20, End = 30, Ignored = [25], Name = ''chunk-01.mp4''\<rparr>] < 2 ^ 63"
    by simp
  show ?thesis
    using last_cut_is_total_duration [OF h1 h2 h3] h2 t by simp
qed

text \<open>
  C10. For every chunk list in which each chunk satisfies \<open>start \<le> end\<close> and \<open>start \<le> t\<close>
  for every \<open>t\<close> in its ignored sequence, deriving the highlights returns a highlight
  sequence: the panic of \<^verbatim>\<open>Duration\<close> is not reached.
\<close>

theorem highlights_never_panic:
  assumes "list_all startsFirst cs"
  shows "\<exists>hs. highlightChunks cs = Inr hs"
  using chunksLoop_ok [OF assms, of 0 "[]"] by (auto simp: highlightChunks_def)

theorem highlights_never_panic_witness:
  "list_all startsFirst
     [\<lparr>Start = 10, End = 20, Ignored = [12, 11], Name = ''chunk-00.mp4''\<rparr>,
      \<lparr>Start = 5, End = 5, Ignored = [], Name = ''chunk-01.mp4''\<rparr>] \<and>
   (\<exists>hs. highlightChunks
       [\<lparr>Start = 10, End = 20, Ignored = [12, 11], Name = ''chunk-00.mp4''\<rparr>,
        \<lparr>Start = 5, End = 5, Ignored = [], Name = ''chunk-01.mp4''\<rparr>] = Inr hs)"
proof -
  have h: "list_all startsFirst
     [\<lparr>Start = 10, End = 20, Ignored = [12, 11], Name = ''chunk-00.mp4''\<rparr>,
      \<lparr>Start = 5, End = 5, Ignored = [], Name = ''chunk-01.mp4''\<rparr>]"
    by (simp add: startsFirst_def word_sle_eq)
  show ?thesis
    using highlights_never_panic [OF h] h by simp
qed

end
